theory Spec2Isabelle
  imports Complex_Main "HOL-Library.Product_Lexorder" "HOL-Library.Code_Target_Nat"
    "HOL-Library.Monad_Syntax"
begin

section \<open>Data model of \<open>etl_parser.py\<close>\<close>

text \<open>
  The active implementation is the second half of \<open>src/etl_parser.py\<close> (the first
  half of the file and all of \<open>format_detector.py\<close> are commented out).
  A Python \<open>str\<close> is modelled as a \<open>string\<close>: a list of code points below 256.
  Offsets and lengths are natural numbers, confidences are exact rationals (the
  program only compares them with and assigns them decimal constants).
\<close>

datatype meta_val = MBool bool | MInt int | MRat rat | MStr string | MNone

record DetectedBlock =
  format_type :: string
  start_index :: nat
  end_index :: nat
  confidence :: rat
  text_str :: string
  meta :: "(string \<times> meta_val) list"


definition FORMAT_PRIORITY :: "string list" where
  "FORMAT_PRIORITY =
     [''JSON_LD'', ''JSON'', ''MALFORMED_JSON'', ''HTML_TABLE'', ''HTML'',
      ''YAML_FRONTMATTER'', ''CSV'', ''CSV_NO_HEADER'', ''KEY_VALUE'', ''JS_OBJECT'',
      ''SQL'', ''RAW_TEXT'']"


text \<open>Python's \<open>text[a:b]\<close> for non-negative \<open>a\<close> and \<open>b\<close>.\<close>

definition slice :: "string \<Rightarrow> nat \<Rightarrow> nat \<Rightarrow> string" where
  "slice s a b = take (b - a) (drop a s)"

section \<open>Span utilities: \<open>find_json_span\<close>\<close>

text \<open>
  The first loop of \<open>find_json_span\<close>:
  \<^verbatim>\<open>while i < n and text[i] != '{': i += 1\<close>.
\<close>

function find_brace :: "string \<Rightarrow> nat \<Rightarrow> nat" where
  "find_brace s i =
     (if i < length s \<and> s ! i \<noteq> CHR ''{'' then find_brace s (i + 1) else i)"
  by pat_completeness auto
termination
  by (relation "measure (\<lambda>(s, i). length s - i)") auto

declare find_brace.simps [simp del]

text \<open>
  The second loop, with the loop variables \<open>j\<close>, \<open>depth\<close>, \<open>in_string\<close>,
  \<open>escape\<close> and \<open>string_char\<close> as arguments. \<open>string_char\<close> is the empty
  string until a quote has been seen, as in the source.
\<close>

function scan_loop ::
  "string \<Rightarrow> nat \<Rightarrow> nat \<Rightarrow> nat \<Rightarrow> int \<Rightarrow> bool \<Rightarrow> bool \<Rightarrow> string \<Rightarrow> (nat \<times> nat) option" where
  "scan_loop s limit start j depth in_string escape string_char =
     (if j < limit then
        (let ch = s ! j in
         if in_string then
           (if escape then scan_loop s limit start (j + 1) depth in_string False string_char
            else if ch = CHR 0x5C then scan_loop s limit start (j + 1) depth in_string True string_char
            else if [ch] = string_char then scan_loop s limit start (j + 1) depth False escape string_char
            else scan_loop s limit start (j + 1) depth in_string escape string_char)
         else
           (if ch = CHR 0x22 \<or> ch = CHR 0x27 then scan_loop s limit start (j + 1) depth True escape [ch]
            else if ch = CHR ''{'' then scan_loop s limit start (j + 1) (depth + 1) in_string escape string_char
            else if ch = CHR ''}'' then
              (if depth - 1 = 0 then Some (start, j + 1)
               else scan_loop s limit start (j + 1) (depth - 1) in_string escape string_char)
            else scan_loop s limit start (j + 1) depth in_string escape string_char))
      else None)"
  by pat_completeness auto
termination
  by (relation "measure (\<lambda>(s, limit, start, j, d, i, e, c). limit - j)") auto

declare scan_loop.simps [simp del]

definition find_json_span :: "string \<Rightarrow> nat \<Rightarrow> nat \<Rightarrow> (nat \<times> nat) option" where
  "find_json_span s start_pos max_len =
     (let n = length s; i = find_brace s start_pos in
      if i \<ge> n then None
      else scan_loop s (min n (i + max_len)) i i 0 False False [])"

text \<open>
  The specification's reading of the scan, independent of the loop: a quote state
  (outside a string, inside a string opened by a given quote character, or inside and
  just after a backslash) and the nesting depth counted over unquoted braces only.
\<close>

datatype qstate = Outside | Inside char | Escaped char

fun nest_step :: "qstate \<times> int \<Rightarrow> char \<Rightarrow> qstate \<times> int" where
  "nest_step (Escaped q, d) c = (Inside q, d)"
| "nest_step (Inside q, d) c =
     (if c = CHR 0x5C then (Escaped q, d) else if c = q then (Outside, d) else (Inside q, d))"
| "nest_step (Outside, d) c =
     (if c = CHR 0x22 \<or> c = CHR 0x27 then (Inside c, d)
      else if c = CHR ''{'' then (Outside, d + 1)
      else if c = CHR ''}'' then (Outside, d - 1)
      else (Outside, d))"

definition nesting :: "string \<Rightarrow> nat \<Rightarrow> nat \<Rightarrow> qstate \<times> int" where
  "nesting s a b = foldl nest_step (Outside, 0) (slice s a b)"

text \<open>
  Position \<open>j\<close> closes the object opened at \<open>a\<close>: it holds an unquoted closing brace
  that brings the depth back to zero.
\<close>

definition closes :: "string \<Rightarrow> nat \<Rightarrow> nat \<Rightarrow> bool" where
  "closes s a j \<longleftrightarrow>
     j < length s \<and> s ! j = CHR ''}'' \<and> fst (nesting s a j) = Outside \<and> snd (nesting s a (j + 1)) = 0"

text \<open>
  How the loop variables \<open>in_string\<close>, \<open>escape\<close> and \<open>string_char\<close> of
  \<open>find_json_span\<close> represent a quote state.
\<close>

definition loop_rel :: "qstate \<Rightarrow> bool \<Rightarrow> bool \<Rightarrow> string \<Rightarrow> bool" where
  "loop_rel q ins esc sc \<longleftrightarrow>
     (q = Outside \<and> \<not> ins \<and> \<not> esc) \<or> (\<exists>c. q = Inside c \<and> ins \<and> \<not> esc \<and> sc = [c])
     \<or> (\<exists>c. q = Escaped c \<and> ins \<and> esc \<and> sc = [c])"

subsection \<open>Facts about the two loops\<close>

lemma find_brace_props:
  "i \<le> find_brace s i \<and> (\<forall>k. i \<le> k \<and> k < find_brace s i \<longrightarrow> s ! k \<noteq> CHR ''{'')
   \<and> (find_brace s i < length s \<longrightarrow> s ! find_brace s i = CHR ''{'')"
proof (induction s i rule: find_brace.induct)
  case (1 s i)
  show ?case
  proof (cases "i < length s \<and> s ! i \<noteq> CHR ''{''")
    case True
    then have eq: "find_brace s i = find_brace s (i + 1)"
      by (subst find_brace.simps) simp
    from 1 [OF True] True show ?thesis
      unfolding eq by (metis Suc_eq_plus1 Suc_leD le_antisym not_less_eq_eq)
  next
    case False
    then have "find_brace s i = i" by (subst find_brace.simps) auto
    with False show ?thesis by auto
  qed
qed

lemma slice_Suc: "a \<le> k \<Longrightarrow> k < length s \<Longrightarrow> slice s a (Suc k) = slice s a k @ [s ! k]"
  by (simp add: slice_def Suc_diff_le take_Suc_conv_app_nth)

lemma nesting_Suc:
  "a \<le> k \<Longrightarrow> k < length s \<Longrightarrow> nesting s a (Suc k) = nest_step (nesting s a k) (s ! k)"
  by (simp add: nesting_def slice_Suc)

lemma nesting_self: "nesting s a a = (Outside, 0)"
  by (simp add: nesting_def slice_def)

lemma scan_loop_Some:
  "scan_loop s limit a j d ins esc sc = Some (x, e) \<Longrightarrow> limit \<le> length s \<Longrightarrow> a \<le> j \<Longrightarrow>
   nesting s a j = (q, d) \<Longrightarrow> loop_rel q ins esc sc \<Longrightarrow>
   x = a \<and> j < e \<and> e \<le> limit \<and> closes s a (e - 1) \<and> (\<forall>k. j \<le> k \<and> k < e - 1 \<longrightarrow> \<not> closes s a k)"
proof (induction "limit - j" arbitrary: j d ins esc sc q)
  case 0
  then show ?case by (subst (asm) scan_loop.simps) simp
next
  case (Suc n)
  from Suc.hyps(2) have jl: "j < limit" and n: "n = limit - (j + 1)" by simp_all
  then have js: "j < length s" using Suc.prems(2) by simp
  have nS: "nesting s a (j + 1) = nest_step (q, d) (s ! j)"
    using nesting_Suc [OF Suc.prems(3) js] Suc.prems(4) by simp
  have aj: "a \<le> j + 1" using Suc.prems(3) by simp
  have cl: "closes s a j \<longleftrightarrow> q = Outside \<and> s ! j = CHR ''}'' \<and> d = 1"
    using Suc.prems(4) nS js by (cases q) (auto simp: closes_def)
  have step: "x = a \<and> j < e \<and> e \<le> limit \<and> closes s a (e - 1) \<and> (\<forall>k. j \<le> k \<and> k < e - 1 \<longrightarrow> \<not> closes s a k)"
    if "scan_loop s limit a (j + 1) d' ins' esc' sc' = Some (x, e)"
       "nest_step (q, d) (s ! j) = (q', d')" "loop_rel q' ins' esc' sc'" "\<not> closes s a j"
    for d' ins' esc' sc' q'
  proof -
    have "x = a \<and> j + 1 < e \<and> e \<le> limit \<and> closes s a (e - 1) \<and> (\<forall>k. j + 1 \<le> k \<and> k < e - 1 \<longrightarrow> \<not> closes s a k)"
      using Suc.hyps(1) [OF n that(1) Suc.prems(2) aj _ that(3)] nS that(2) by simp
    with that(4) show ?thesis
      by (metis Suc_eq_plus1 Suc_leI Suc_lessD le_neq_implies_less)
  qed
  have fin: "x = a \<and> j < e \<and> e \<le> limit \<and> closes s a (e - 1) \<and> (\<forall>k. j \<le> k \<and> k < e - 1 \<longrightarrow> \<not> closes s a k)"
    if "x = a" "e = j + 1" "closes s a j"
    using that jl by auto
  consider (out) "q = Outside" "\<not> ins" "\<not> esc"
    | (ins) c where "q = Inside c" "ins" "\<not> esc" "sc = [c]"
    | (esc) c where "q = Escaped c" "ins" "esc" "sc = [c]"
    using Suc.prems(5) by (auto simp: loop_rel_def)
  then show ?case
  proof cases
    case esc
    have r: "scan_loop s limit a (j + 1) d True False [c] = Some (x, e)"
      using Suc.prems(1) jl esc by (subst (asm) scan_loop.simps) simp
    show ?thesis
      by (rule step [OF r, of "Inside c"]) (simp_all add: esc loop_rel_def cl)
  next
    case ins
    show ?thesis
    proof (cases "s ! j = CHR 0x5C")
      case True
      have r: "scan_loop s limit a (j + 1) d True True [c] = Some (x, e)"
        using Suc.prems(1) jl ins True by (subst (asm) scan_loop.simps) simp
      show ?thesis
        by (rule step [OF r, of "Escaped c"]) (simp_all add: ins True loop_rel_def cl)
    next
      case False
      show ?thesis
      proof (cases "s ! j = c")
        case True
        have r: "scan_loop s limit a (j + 1) d False False [c] = Some (x, e)"
          using Suc.prems(1) jl ins True False by (subst (asm) scan_loop.simps) simp
        show ?thesis
          by (rule step [OF r, of Outside]) (use True False in \<open>auto simp add: ins loop_rel_def cl\<close>)
      next
        case neq: False
        have r: "scan_loop s limit a (j + 1) d True False [c] = Some (x, e)"
          using Suc.prems(1) jl ins neq False by (subst (asm) scan_loop.simps) simp
        show ?thesis
          by (rule step [OF r, of "Inside c"]) (simp_all add: ins neq False loop_rel_def cl)
      qed
    qed
  next
    case out
    show ?thesis
    proof (cases "s ! j = CHR 0x22 \<or> s ! j = CHR 0x27")
      case True
      have r: "scan_loop s limit a (j + 1) d True False [s ! j] = Some (x, e)"
        using Suc.prems(1) jl out True by (subst (asm) scan_loop.simps) simp
      show ?thesis
        by (rule step [OF r, of "Inside (s ! j)"]) (use True in \<open>auto simp add: out loop_rel_def cl\<close>)
    next
      case nq: False
      show ?thesis
      proof (cases "s ! j = CHR ''{''")
        case True
        have r: "scan_loop s limit a (j + 1) (d + 1) False False sc = Some (x, e)"
          using Suc.prems(1) jl out True by (subst (asm) scan_loop.simps) simp
        show ?thesis
          by (rule step [OF r, of Outside]) (simp_all add: out True loop_rel_def cl)
      next
        case nb: False
        show ?thesis
        proof (cases "s ! j = CHR ''}''")
          case True
          show ?thesis
          proof (cases "d - 1 = 0")
            case z: True
            have "x = a \<and> e = j + 1"
              using Suc.prems(1) jl out True z by (subst (asm) scan_loop.simps) simp
            moreover have "closes s a j" using cl out True z by simp
            ultimately show ?thesis using fin by blast
          next
            case nz: False
            have r: "scan_loop s limit a (j + 1) (d - 1) False False sc = Some (x, e)"
              using Suc.prems(1) jl out True nz by (subst (asm) scan_loop.simps) simp
            show ?thesis
              by (rule step [OF r, of Outside]) (use nz in \<open>simp_all add: out True loop_rel_def cl\<close>)
          qed
        next
          case False
          have r: "scan_loop s limit a (j + 1) d False False sc = Some (x, e)"
            using Suc.prems(1) jl out False nb nq by (subst (asm) scan_loop.simps) simp
          show ?thesis
            by (rule step [OF r, of Outside]) (use False nb nq in \<open>simp_all add: out loop_rel_def cl\<close>)
        qed
      qed
    qed
  qed
qed


lemma scan_loop_None:
  "scan_loop s limit a j d ins esc sc = None \<Longrightarrow> limit \<le> length s \<Longrightarrow> a \<le> j \<Longrightarrow>
   nesting s a j = (q, d) \<Longrightarrow> loop_rel q ins esc sc \<Longrightarrow>
   (\<forall>k. j \<le> k \<and> k < limit \<longrightarrow> \<not> closes s a k)"
proof (induction "limit - j" arbitrary: j d ins esc sc q)
  case 0
  then have "limit \<le> j" by simp
  then show ?case by auto
next
  case (Suc n)
  from Suc.hyps(2) have jl: "j < limit" and n: "n = limit - (j + 1)" by simp_all
  then have js: "j < length s" using Suc.prems(2) by simp
  have nS: "nesting s a (j + 1) = nest_step (q, d) (s ! j)"
    using nesting_Suc [OF Suc.prems(3) js] Suc.prems(4) by simp
  have aj: "a \<le> j + 1" using Suc.prems(3) by simp
  have cl: "closes s a j \<longleftrightarrow> q = Outside \<and> s ! j = CHR ''}'' \<and> d = 1"
    using Suc.prems(4) nS js by (cases q) (auto simp: closes_def)
  have step: "\<forall>k. j \<le> k \<and> k < limit \<longrightarrow> \<not> closes s a k"
    if "scan_loop s limit a (j + 1) d' ins' esc' sc' = None"
       "nest_step (q, d) (s ! j) = (q', d')" "loop_rel q' ins' esc' sc'" "\<not> closes s a j"
    for d' ins' esc' sc' q'
  proof -
    have "\<forall>k. j + 1 \<le> k \<and> k < limit \<longrightarrow> \<not> closes s a k"
      using Suc.hyps(1) [OF n that(1) Suc.prems(2) aj _ that(3)] nS that(2) by simp
    with that(4) show ?thesis
      by (metis Suc_eq_plus1 Suc_leI le_neq_implies_less)
  qed
  consider (out) "q = Outside" "\<not> ins" "\<not> esc"
    | (ins) c where "q = Inside c" "ins" "\<not> esc" "sc = [c]"
    | (esc) c where "q = Escaped c" "ins" "esc" "sc = [c]"
    using Suc.prems(5) by (auto simp: loop_rel_def)
  then show ?case
  proof cases
    case esc
    have r: "scan_loop s limit a (j + 1) d True False [c] = None"
      using Suc.prems(1) jl esc by (subst (asm) scan_loop.simps) simp
    show ?thesis
      by (rule step [OF r, of "Inside c"]) (simp_all add: esc loop_rel_def cl)
  next
    case ins
    show ?thesis
    proof (cases "s ! j = CHR 0x5C")
      case True
      have r: "scan_loop s limit a (j + 1) d True True [c] = None"
        using Suc.prems(1) jl ins True by (subst (asm) scan_loop.simps) simp
      show ?thesis
        by (rule step [OF r, of "Escaped c"]) (simp_all add: ins True loop_rel_def cl)
    next
      case False
      show ?thesis
      proof (cases "s ! j = c")
        case True
        have r: "scan_loop s limit a (j + 1) d False False [c] = None"
          using Suc.prems(1) jl ins True False by (subst (asm) scan_loop.simps) simp
        show ?thesis
          by (rule step [OF r, of Outside]) (use True False in \<open>auto simp add: ins loop_rel_def cl\<close>)
      next
        case neq: False
        have r: "scan_loop s limit a (j + 1) d True False [c] = None"
          using Suc.prems(1) jl ins neq False by (subst (asm) scan_loop.simps) simp
        show ?thesis
          by (rule step [OF r, of "Inside c"]) (simp_all add: ins neq False loop_rel_def cl)
      qed
    qed
  next
    case out
    show ?thesis
    proof (cases "s ! j = CHR 0x22 \<or> s ! j = CHR 0x27")
      case True
      have r: "scan_loop s limit a (j + 1) d True False [s ! j] = None"
        using Suc.prems(1) jl out True by (subst (asm) scan_loop.simps) simp
      show ?thesis
        by (rule step [OF r, of "Inside (s ! j)"]) (use True in \<open>auto simp add: out loop_rel_def cl\<close>)
    next
      case nq: False
      show ?thesis
      proof (cases "s ! j = CHR ''{''")
        case True
        have r: "scan_loop s limit a (j + 1) (d + 1) False False sc = None"
          using Suc.prems(1) jl out True by (subst (asm) scan_loop.simps) simp
        show ?thesis
          by (rule step [OF r, of Outside]) (simp_all add: out True loop_rel_def cl)
      next
        case nb: False
        show ?thesis
        proof (cases "s ! j = CHR ''}''")
          case True
          have nz: "d - 1 \<noteq> 0"
            using Suc.prems(1) jl out True by (subst (asm) scan_loop.simps) (auto split: if_splits)
          have r: "scan_loop s limit a (j + 1) (d - 1) False False sc = None"
            using Suc.prems(1) jl out True nz by (subst (asm) scan_loop.simps) simp
          show ?thesis
            by (rule step [OF r, of Outside]) (use nz in \<open>simp_all add: out True loop_rel_def cl\<close>)
        next
          case False
          have r: "scan_loop s limit a (j + 1) d False False sc = None"
            using Suc.prems(1) jl out False nb nq by (subst (asm) scan_loop.simps) simp
          show ?thesis
            by (rule step [OF r, of Outside]) (use False nb nq in \<open>simp_all add: out loop_rel_def cl\<close>)
        qed
      qed
    qed
  qed
qed

section \<open>Strings and characters as Python sees them\<close>

definition is_space :: "char \<Rightarrow> bool" where
  \<comment> \<open>\<open>str.isspace\<close> and the class \<open>\s\<close>, on code points below 256\<close>
  "is_space c = (let n = (of_char c :: nat) in
     (9 \<le> n \<and> n \<le> 13) \<or> (28 \<le> n \<and> n \<le> 32) \<or> n = 133 \<or> n = 160)"

definition is_digit :: "char \<Rightarrow> bool" where
  "is_digit c = (let n = (of_char c :: nat) in 48 \<le> n \<and> n \<le> 57)"

definition is_upper :: "char \<Rightarrow> bool" where
  "is_upper c = (let n = (of_char c :: nat) in 65 \<le> n \<and> n \<le> 90)"

definition is_lower :: "char \<Rightarrow> bool" where
  "is_lower c = (let n = (of_char c :: nat) in 97 \<le> n \<and> n \<le> 122)"

definition is_alpha :: "char \<Rightarrow> bool" where
  \<comment> \<open>the class \<open>[A-Za-z]\<close>\<close>
  "is_alpha c = (is_upper c \<or> is_lower c)"

definition is_word :: "char \<Rightarrow> bool" where
  \<comment> \<open>the class \<open>\w\<close> of a \<open>str\<close> pattern: alphanumeric code points and the underscore\<close>
  "is_word c = (let n = (of_char c :: nat) in
     is_alpha c \<or> is_digit c \<or> c = CHR ''_'' \<or>
     n = 170 \<or> n = 178 \<or> n = 179 \<or> n = 181 \<or> n = 185 \<or> n = 186 \<or>
     (188 \<le> n \<and> n \<le> 190) \<or> (192 \<le> n \<and> n \<le> 214) \<or> (216 \<le> n \<and> n \<le> 246) \<or> 248 \<le> n)"




definition lstrip_len :: "string \<Rightarrow> nat" where
  "lstrip_len s = length (takeWhile is_space s)"









section \<open>Regular expressions\<close>

text \<open>
  The program uses the \<open>re\<close> module with patterns built from character classes,
  repetitions of a single character class (greedy or lazy, bounded or not), sequences,
  alternatives, optional parts, capture groups, the anchors \<open>^\<close> (\<open>Bos\<close>, or \<open>Bol\<close> under
  \<open>re.MULTILINE\<close>) and \<open>$\<close>, the word boundary and one-character look-ahead and
  look-behind. The matcher below is a backtracking matcher that tries the alternatives
  in the priority order of \<open>re\<close>, so that the first success is the match \<open>re\<close> reports.
  Every pattern of the program consumes at least one character.
\<close>

datatype regex =
    Ch "char \<Rightarrow> bool"
  | Rep "char \<Rightarrow> bool" nat "nat option" bool
  | Seq regex regex
  | Alt regex regex
  | Opt regex
  | Grp nat regex
  | Bos
  | Bol
  | Eol
  | Wordb
  | Ahead "char \<Rightarrow> bool"
  | Behind "char \<Rightarrow> bool"
  | Eps

text \<open>
  A position in the subject string: its index, the character before it (if any) and the
  characters from it on. What is still to be matched is a stack of patterns; \<open>GEnd g a\<close>
  on the stack closes group \<open>g\<close>, which was opened at index \<open>a\<close>.
\<close>

type_synonym cursor = "nat \<times> char option \<times> string"

type_synonym caps = "(nat \<times> nat \<times> nat) list"

datatype item = Rx regex | GEnd nat nat

primrec rsize :: "regex \<Rightarrow> nat" where
  "rsize (Ch p) = 1"
| "rsize (Rep p lo hi greedy) = 1"
| "rsize (Seq a b) = 1 + rsize a + rsize b"
| "rsize (Alt a b) = 1 + rsize a + rsize b"
| "rsize (Opt a) = 1 + rsize a"
| "rsize (Grp g a) = 2 + rsize a"
| "rsize Bos = 1"
| "rsize Bol = 1"
| "rsize Eol = 1"
| "rsize Wordb = 1"
| "rsize (Ahead p) = 1"
| "rsize (Behind p) = 1"
| "rsize Eps = 1"

fun isize :: "item \<Rightarrow> nat" where
  "isize (Rx r) = rsize r"
| "isize (GEnd g a) = 1"

definition dec_opt :: "nat option \<Rightarrow> nat option" where
  "dec_opt hi = (case hi of None \<Rightarrow> None | Some h \<Rightarrow> Some (h - 1))"

definition word_opt :: "char option \<Rightarrow> bool" where
  "word_opt x = (case x of None \<Rightarrow> False | Some c \<Rightarrow> is_word c)"

function run :: "item list \<Rightarrow> cursor \<Rightarrow> caps \<Rightarrow> (cursor \<times> caps) option" where
  "run [] cur c = Some (cur, c)"
| "run (GEnd g a # rs) (i, pv, cs) c = run rs (i, pv, cs) ((g, a, i) # c)"
| "run (Rx (Ch p) # rs) (i, pv, cs) c =
     (case cs of [] \<Rightarrow> None | x # xs \<Rightarrow> if p x then run rs (i + 1, Some x, xs) c else None)"
| "run (Rx (Rep p lo hi greedy) # rs) (i, pv, cs) c =
     (if greedy then
        (case (case cs of [] \<Rightarrow> None
               | x # xs \<Rightarrow> if p x \<and> hi \<noteq> Some 0
                           then run (Rx (Rep p (lo - 1) (dec_opt hi) greedy) # rs) (i + 1, Some x, xs) c
                           else None) of
           Some r \<Rightarrow> Some r
         | None \<Rightarrow> if lo = 0 then run rs (i, pv, cs) c else None)
      else
        (case (if lo = 0 then run rs (i, pv, cs) c else None) of
           Some r \<Rightarrow> Some r
         | None \<Rightarrow>
             (case cs of [] \<Rightarrow> None
              | x # xs \<Rightarrow> if p x \<and> hi \<noteq> Some 0
                          then run (Rx (Rep p (lo - 1) (dec_opt hi) greedy) # rs) (i + 1, Some x, xs) c
                          else None)))"
| "run (Rx (Seq a b) # rs) cur c = run (Rx a # Rx b # rs) cur c"
| "run (Rx (Alt a b) # rs) cur c =
     (case run (Rx a # rs) cur c of Some r \<Rightarrow> Some r | None \<Rightarrow> run (Rx b # rs) cur c)"
| "run (Rx (Opt a) # rs) cur c =
     (case run (Rx a # rs) cur c of Some r \<Rightarrow> Some r | None \<Rightarrow> run rs cur c)"
| "run (Rx (Grp g a) # rs) (i, pv, cs) c = run (Rx a # GEnd g i # rs) (i, pv, cs) c"
| "run (Rx Bos # rs) (i, pv, cs) c = (if i = 0 then run rs (i, pv, cs) c else None)"
| "run (Rx Bol # rs) (i, pv, cs) c =
     (if i = 0 \<or> pv = Some (CHR 0x0A) then run rs (i, pv, cs) c else None)"
| "run (Rx Eol # rs) (i, pv, cs) c =
     (if cs = [] \<or> cs = [CHR 0x0A] then run rs (i, pv, cs) c else None)"
| "run (Rx Wordb # rs) (i, pv, cs) c =
     (if word_opt pv \<noteq> word_opt (case cs of [] \<Rightarrow> None | x # xs \<Rightarrow> Some x)
      then run rs (i, pv, cs) c else None)"
| "run (Rx (Ahead p) # rs) (i, pv, cs) c =
     (case cs of [] \<Rightarrow> None | x # xs \<Rightarrow> if p x then run rs (i, pv, cs) c else None)"
| "run (Rx (Behind p) # rs) (i, pv, cs) c =
     (case pv of None \<Rightarrow> None | Some x \<Rightarrow> if p x then run rs (i, pv, cs) c else None)"
| "run (Rx Eps # rs) cur c = run rs cur c"
  by pat_completeness auto
termination
  by (relation "measures [\<lambda>(rs, cur, c). sum_list (map isize rs), \<lambda>(rs, (i, pv, cs), c). length cs]")
     auto

declare run.simps [simp del]

text \<open>A match object: start, end and the spans of the groups that took part.\<close>

type_synonym rmatch = "nat \<times> nat \<times> caps"

definition match_at :: "regex \<Rightarrow> cursor \<Rightarrow> rmatch option" where
  "match_at r cur =
     (case run [Rx r] cur [] of None \<Rightarrow> None | Some ((e, pv, cs), c) \<Rightarrow> Some (fst cur, e, c))"


text \<open>
  During a match the index and the characters that remain always add up to the length
  of the subject, the index does not go back, and the groups lie inside the subject.
\<close>

definition caps_ok :: "nat \<Rightarrow> caps \<Rightarrow> bool" where
  "caps_ok n c \<longleftrightarrow> (\<forall>(g, a, b) \<in> set c. a \<le> b \<and> b \<le> n)"

fun stack_ok :: "nat \<Rightarrow> item list \<Rightarrow> bool" where
  "stack_ok i [] = True"
| "stack_ok i (GEnd g a # rs) = (a \<le> i \<and> stack_ok i rs)"
| "stack_ok i (Rx r # rs) = stack_ok i rs"

lemma stack_ok_mono: "stack_ok i rs \<Longrightarrow> i \<le> j \<Longrightarrow> stack_ok j rs"
  by (induction i rs rule: stack_ok.induct) auto

lemma run_bounds:
  "run rs (i, pv, cs) c = Some ((j, pv', cs'), c') \<Longrightarrow> stack_ok i rs \<Longrightarrow>
   caps_ok (i + length cs) c \<Longrightarrow>
   i \<le> j \<and> j + length cs' = i + length cs \<and> caps_ok (i + length cs) c'"
proof (induction rs "(i, pv, cs)" c arbitrary: i pv cs rule: run.induct)
  case (1 c)
  then show ?case by (simp add: run.simps)
next
  case (2 g a rs i pv cs c)
  from "2.prems"(1) have "run rs (i, pv, cs) ((g, a, i) # c) = Some ((j, pv', cs'), c')"
    by (simp add: run.simps)
  from "2.hyps" [OF this] "2.prems"(2,3) show ?case by (auto simp: caps_ok_def)
next
  case (3 p rs i pv cs c)
  from "3.prems"(1) obtain x xs where cs: "cs = x # xs" and "p x"
    and r: "run rs (i + 1, Some x, xs) c = Some ((j, pv', cs'), c')"
    by (cases cs) (auto simp: run.simps split: if_splits)
  have "stack_ok (i + 1) rs" using "3.prems"(2) by (auto intro: stack_ok_mono)
  from "3.hyps" [OF cs \<open>p x\<close> r this] "3.prems"(3) cs show ?case by simp
next
  case (4 p lo hi greedy rs i pv cs c)
  have more: "i \<le> j \<and> j + length cs' = i + length cs \<and> caps_ok (i + length cs) c'"
    if "cs = x # xs" "p x" "hi \<noteq> Some 0"
       "run (Rx (Rep p (lo - 1) (dec_opt hi) greedy) # rs) (i + 1, Some x, xs) c = Some ((j, pv', cs'), c')"
    for x xs
  proof -
    have s: "stack_ok (i + 1) (Rx (Rep p (lo - 1) (dec_opt hi) greedy) # rs)"
      using "4.prems"(2) by (auto intro: stack_ok_mono)
    have k: "caps_ok (i + 1 + length xs) c" using "4.prems"(3) that(1) by simp
    show ?thesis
    proof (cases greedy)
      case True
      from "4.hyps"(1) [OF True that(1) _ that(4) [unfolded True] s [unfolded True] k] that
      show ?thesis by simp
    next
      case False
      have n: "(if lo = 0 then run rs (i, pv, cs) c else None) = None \<or> True" by simp
      show ?thesis
      proof (cases "(if lo = 0 then run rs (i, pv, cs) c else None)")
        case None
        from "4.hyps"(4) [OF False None that(1) _ that(4) [unfolded False] s [unfolded False] k] that
        show ?thesis using False by simp
      next
        case (Some r)
        with "4.prems"(1) False have "r = ((j, pv', cs'), c')" by (simp add: run.simps)
        with Some have lo: "lo = 0" and r: "run rs (i, pv, cs) c = Some ((j, pv', cs'), c')"
          by (auto split: if_splits)
        from "4.hyps"(3) [OF False lo r "4.prems"(2) [simplified] "4.prems"(3)] show ?thesis by simp
      qed
    qed
  qed
  have stop: "i \<le> j \<and> j + length cs' = i + length cs \<and> caps_ok (i + length cs) c'"
    if "lo = 0" "run rs (i, pv, cs) c = Some ((j, pv', cs'), c')"
      "greedy \<Longrightarrow> (case cs of [] \<Rightarrow> None
               | x # xs \<Rightarrow> if p x \<and> hi \<noteq> Some 0
                           then run (Rx (Rep p (lo - 1) (dec_opt hi) greedy) # rs) (i + 1, Some x, xs) c
                           else None) = None"
  proof (cases greedy)
    case True
    from "4.hyps"(2) [OF True that(3) [OF True, unfolded True] that(1) that(2) "4.prems"(2) [simplified] "4.prems"(3)]
    show ?thesis by simp
  next
    case False
    from "4.hyps"(3) [OF False that(1) that(2) "4.prems"(2) [simplified] "4.prems"(3)] show ?thesis by simp
  qed
  from "4.prems"(1) consider
      (m) x xs where "cs = x # xs" "p x" "hi \<noteq> Some 0"
        "run (Rx (Rep p (lo - 1) (dec_opt hi) greedy) # rs) (i + 1, Some x, xs) c = Some ((j, pv', cs'), c')"
    | (s) "lo = 0" "run rs (i, pv, cs) c = Some ((j, pv', cs'), c')"
        "greedy \<Longrightarrow> (case cs of [] \<Rightarrow> None
               | x # xs \<Rightarrow> if p x \<and> hi \<noteq> Some 0
                           then run (Rx (Rep p (lo - 1) (dec_opt hi) greedy) # rs) (i + 1, Some x, xs) c
                           else None) = None"
    by (subst (asm) run.simps) (auto split: if_splits option.splits list.splits)
  then show ?case
  proof cases
    case m
    then show ?thesis by (rule more)
  next
    case s
    then show ?thesis by (rule stop)
  qed
next
  case (5 a b rs c i pv cs)
  from "5.prems"(1) have "run (Rx a # Rx b # rs) (i, pv, cs) c = Some ((j, pv', cs'), c')"
    by (simp add: run.simps)
  from "5.hyps" [OF this] "5.prems"(2,3) show ?case by simp
next
  case (6 a b rs c i pv cs)
  show ?case
  proof (cases "run (Rx a # rs) (i, pv, cs) c")
    case None
    with "6.prems"(1) have "run (Rx b # rs) (i, pv, cs) c = Some ((j, pv', cs'), c')"
      by (simp add: run.simps)
    from "6.hyps"(2) [OF None this] "6.prems"(2,3) show ?thesis by simp
  next
    case (Some r)
    with "6.prems"(1) have "run (Rx a # rs) (i, pv, cs) c = Some ((j, pv', cs'), c')"
      by (simp add: run.simps)
    from "6.hyps"(1) [OF this] "6.prems"(2,3) show ?thesis by simp
  qed
next
  case (7 a rs c i pv cs)
  show ?case
  proof (cases "run (Rx a # rs) (i, pv, cs) c")
    case None
    with "7.prems"(1) have "run rs (i, pv, cs) c = Some ((j, pv', cs'), c')"
      by (simp add: run.simps)
    from "7.hyps"(2) [OF None this] "7.prems"(2,3) show ?thesis by simp
  next
    case (Some r)
    with "7.prems"(1) have "run (Rx a # rs) (i, pv, cs) c = Some ((j, pv', cs'), c')"
      by (simp add: run.simps)
    from "7.hyps"(1) [OF this] "7.prems"(2,3) show ?thesis by simp
  qed
next
  case (8 g a rs i pv cs c)
  from "8.prems"(1) have "run (Rx a # GEnd g i # rs) (i, pv, cs) c = Some ((j, pv', cs'), c')"
    by (simp add: run.simps)
  from "8.hyps" [OF this] "8.prems"(2,3) show ?case by simp
next
  case (9 rs i pv cs c)
  from "9.prems"(1) have "i = 0" and "run rs (i, pv, cs) c = Some ((j, pv', cs'), c')"
    by (auto simp: run.simps split: if_splits)
  from "9.hyps" [OF this] "9.prems"(2,3) show ?case by simp
next
  case (10 rs i pv cs c)
  from "10.prems"(1) have "i = 0 \<or> pv = Some (CHR 0x0A)"
    and "run rs (i, pv, cs) c = Some ((j, pv', cs'), c')"
    by (auto simp: run.simps split: if_splits)
  from "10.hyps" [OF this] "10.prems"(2,3) show ?case by simp
next
  case (11 rs i pv cs c)
  from "11.prems"(1) have "cs = [] \<or> cs = [CHR 0x0A]"
    and "run rs (i, pv, cs) c = Some ((j, pv', cs'), c')"
    by (auto simp: run.simps split: if_splits)
  from "11.hyps" [OF this] "11.prems"(2,3) show ?case by simp
next
  case (12 rs i pv cs c)
  from "12.prems"(1)
  have "word_opt pv \<noteq> word_opt (case cs of [] \<Rightarrow> None | x # xs \<Rightarrow> Some x)"
    and "run rs (i, pv, cs) c = Some ((j, pv', cs'), c')"
    by (auto simp: run.simps split: if_splits)
  from "12.hyps" [OF this] "12.prems"(2,3) show ?case by simp
next
  case (13 p rs i pv cs c)
  from "13.prems"(1) obtain x xs where "cs = x # xs" "p x"
    and "run rs (i, pv, cs) c = Some ((j, pv', cs'), c')"
    by (cases cs) (auto simp: run.simps split: if_splits)
  from "13.hyps" [OF this] "13.prems"(2,3) show ?case by simp
next
  case (14 p rs i pv cs c)
  from "14.prems"(1) obtain x where "pv = Some x" "p x"
    and "run rs (i, pv, cs) c = Some ((j, pv', cs'), c')"
    by (cases pv) (auto simp: run.simps split: if_splits)
  from "14.hyps" [OF this] "14.prems"(2,3) show ?case by simp
next
  case (15 rs c i pv cs)
  from "15.prems"(1) have "run rs (i, pv, cs) c = Some ((j, pv', cs'), c')"
    by (simp add: run.simps)
  from "15.hyps" [OF this] "15.prems"(2,3) show ?case by simp
qed

lemma match_at_bounds:
  assumes "match_at r (i, pv, cs) = Some (a, e, c)"
  shows "a = i" and "i \<le> e" and "e \<le> i + length cs" and "caps_ok (i + length cs) c"
proof -
  from assms obtain pv' cs' where
    r: "run [Rx r] (i, pv, cs) [] = Some ((e, pv', cs'), c)" and a: "a = i"
    by (auto simp: match_at_def split: option.splits)
  from run_bounds [OF r] have "i \<le> e \<and> e + length cs' = i + length cs \<and> caps_ok (i + length cs) c"
    by (simp add: caps_ok_def)
  with a show "a = i" and "i \<le> e" and "e \<le> i + length cs" and "caps_ok (i + length cs) c"
    by auto
qed

text \<open>\<open>re.search\<close> and \<open>re.match\<close>.\<close>

fun search_cur :: "regex \<Rightarrow> cursor \<Rightarrow> rmatch option" where
  "search_cur r (i, pv, []) = match_at r (i, pv, [])"
| "search_cur r (i, pv, x # xs) =
     (case match_at r (i, pv, x # xs) of
        Some m \<Rightarrow> Some m
      | None \<Rightarrow> search_cur r (i + 1, Some x, xs))"

definition re_search :: "regex \<Rightarrow> string \<Rightarrow> rmatch option" where
  "re_search r s = search_cur r (0, None, s)"
















section \<open>Values and \<open>json.loads\<close>\<close>






















section \<open>Markup: \<open>BeautifulSoup(s, "html.parser")\<close>\<close>






















section \<open>Facts about the matcher that the loops of the detectors rest on\<close>


lemma search_cur_Some:
  "search_cur r (i, pv, cs) = Some m \<Longrightarrow>
   \<exists>k pv'. k \<le> length cs \<and> fst m = i + k \<and> match_at r (i + k, pv', drop k cs) = Some m"
proof (induction cs arbitrary: i pv)
  case Nil
  then have "match_at r (i, pv, []) = Some m" by simp
  moreover from this have "fst m = i" by (auto simp: match_at_def split: option.splits)
  ultimately show ?case by (intro exI [of _ 0] exI [of _ pv]) simp
next
  case (Cons x xs)
  show ?case
  proof (cases "match_at r (i, pv, x # xs)")
    case None
    with Cons.prems have "search_cur r (i + 1, Some x, xs) = Some m" by simp
    from Cons.IH [OF this] obtain k pv' where
      "k \<le> length xs" "fst m = i + 1 + k" "match_at r (i + 1 + k, pv', drop k xs) = Some m" by blast
    then show ?thesis by (intro exI [of _ "Suc k"] exI [of _ pv']) simp
  next
    case (Some m')
    with Cons.prems have "m' = m" by simp
    moreover from Some have "fst m' = i" by (auto simp: match_at_def split: option.splits)
    ultimately show ?thesis using Some by (intro exI [of _ 0] exI [of _ pv]) simp
  qed
qed

lemma re_search_Some:
  "re_search r s = Some m \<Longrightarrow>
   \<exists>pv. fst m \<le> length s \<and> match_at r (fst m, pv, drop (fst m) s) = Some m"
  using search_cur_Some [of r 0 None s m] by (auto simp: re_search_def)

lemma re_search_bounds:
  assumes "re_search r s = Some (a, e, c)"
  shows "a \<le> e" and "e \<le> length s" and "caps_ok (length s) c"
proof -
  from re_search_Some [OF assms] obtain pv where
    "a \<le> length s" "match_at r (a, pv, drop a s) = Some (a, e, c)" by auto
  from match_at_bounds [OF this(2)] this(1)
  show "a \<le> e" and "e \<le> length s" and "caps_ok (length s) c" by simp_all
qed

section \<open>The fragment detector\<close>










subsection \<open>1. JSON-LD\<close>




subsection \<open>2. YAML frontmatter\<close>




subsection \<open>3. Sections with a JSON header\<close>





subsection \<open>4. JSON and malformed JSON anywhere\<close>
















subsection \<open>5. HTML tables and HTML blocks\<close>










subsection \<open>6. and 7. CSV and key-value blocks\<close>

























subsection \<open>8. JavaScript object literals\<close>





subsection \<open>9. SQL\<close>




subsection \<open>10. Raw text\<close>






subsection \<open>The order of the detectors\<close>



section \<open>The resolver: \<open>_dedupe_prioritize\<close>\<close>

fun list_index :: "'a list \<Rightarrow> 'a \<Rightarrow> nat option" where
  \<comment> \<open>\<open>xs.index(x)\<close>, \<open>None\<close> for \<open>ValueError\<close>\<close>
  "list_index [] x = None"
| "list_index (y # ys) x = (if y = x then Some 0 else map_option Suc (list_index ys x))"

definition priority :: "string \<Rightarrow> nat" where
  \<comment> \<open>the index in \<open>FORMAT_PRIORITY\<close>, its length for a format that is not in the table\<close>
  "priority t = (case list_index FORMAT_PRIORITY t of Some p \<Rightarrow> p | None \<Rightarrow> length FORMAT_PRIORITY)"

definition inside :: "DetectedBlock \<Rightarrow> DetectedBlock \<Rightarrow> bool" where
  \<comment> \<open>\<open>b.start_index >= k.start_index and b.end_index <= k.end_index\<close>\<close>
  "inside b k \<longleftrightarrow> start_index b \<ge> start_index k \<and> end_index b \<le> end_index k"

fun find_container :: "DetectedBlock \<Rightarrow> DetectedBlock list \<Rightarrow> DetectedBlock option" where
  \<comment> \<open>the inner loop: the first kept block that contains \<open>b\<close> and does not rank below it\<close>
  "find_container b [] = None"
| "find_container b (k # ks) =
     (if inside b k \<and> priority (format_type k) \<le> priority (format_type b) then Some k
      else find_container b ks)"

fun dedupe_loop :: "DetectedBlock list \<Rightarrow> DetectedBlock list \<Rightarrow> DetectedBlock list" where
  "dedupe_loop kept [] = kept"
| "dedupe_loop kept (b # bs) =
     (case find_container b kept of
        None \<Rightarrow> dedupe_loop (kept @ [b]) bs
      | Some contained_by \<Rightarrow>
          (case (list_index FORMAT_PRIORITY (format_type b),
                 list_index FORMAT_PRIORITY (format_type contained_by)) of
             (Some pb, Some pk) \<Rightarrow> if pb < pk then dedupe_loop (kept @ [b]) bs else dedupe_loop kept bs
           | _ \<Rightarrow> dedupe_loop kept bs))"




section \<open>The normalizer\<close>




















section \<open>The entry point: \<open>parse_file\<close>\<close>






section \<open>Notions used to state the properties\<close>







section \<open>Verification\<close>

subsection \<open>The resolver\<close>


lemma find_container_Some:
  "find_container b kept = Some k \<Longrightarrow>
   k \<in> set kept \<and> inside b k \<and> priority (format_type k) \<le> priority (format_type b)"
  by (induction kept) (auto split: if_splits)

lemma dedupe_loop_step:
  "dedupe_loop kept (b # bs) =
     (if find_container b kept = None then dedupe_loop (kept @ [b]) bs else dedupe_loop kept bs)"
proof (cases "find_container b kept")
  case None
  then show ?thesis by simp
next
  case (Some k)
  from find_container_Some [OF Some]
  have le: "priority (format_type k) \<le> priority (format_type b)" by simp
  show ?thesis
  proof (cases "list_index FORMAT_PRIORITY (format_type b)")
    case None
    with Some show ?thesis by simp
  next
    case pb: (Some pb)
    show ?thesis
    proof (cases "list_index FORMAT_PRIORITY (format_type k)")
      case None
      with Some pb show ?thesis by simp
    next
      case pk: (Some pk)
      from le pb pk have "pk \<le> pb" by (simp add: priority_def)
      with Some pb pk show ?thesis by simp
    qed
  qed
qed

lemma dedupe_loop_subset: "set (dedupe_loop kept bs) \<subseteq> set kept \<union> set bs"
proof (induction bs arbitrary: kept)
  case Nil
  then show ?case by simp
next
  case (Cons b bs)
  show ?case using Cons.IH [of "kept @ [b]"] Cons.IH [of kept]
    unfolding dedupe_loop_step by (auto split: if_splits)
qed









subsection \<open>The brace matcher\<close>

text \<open>
  Claim C7. \<open>find_json_span\<close> moves to the first opening brace at or after the start
  position and tracks the nesting depth over unquoted braces only (single- and
  double-quoted strings, a backslash protecting the next character). A returned pair
  \<open>(a, e)\<close> has an opening brace at \<open>a\<close>, and \<open>e - 1\<close> is the first position whose
  unquoted closing brace brings the depth back to zero, with \<open>a \<le> e - 1 < length s\<close>
  and \<open>e\<close> inside the window of \<open>m\<close> characters. It returns no match exactly when
  there is no opening brace, or no position inside the window closes the object.
\<close>

theorem find_json_span_scan:
  "(case find_json_span s p m of
      Some (a, e) \<Rightarrow>
        p \<le> a \<and> s ! a = CHR ''{'' \<and> (\<forall>k. p \<le> k \<and> k < a \<longrightarrow> s ! k \<noteq> CHR ''{'') \<and>
        a \<le> e - 1 \<and> e - 1 < length s \<and> e \<le> a + m \<and> s ! (e - 1) = CHR ''}'' \<and>
        closes s a (e - 1) \<and> (\<forall>j. a \<le> j \<and> j < e - 1 \<longrightarrow> \<not> closes s a j)
    | None \<Rightarrow>
        (\<forall>k. p \<le> k \<and> k < length s \<longrightarrow> s ! k \<noteq> CHR ''{'') \<or>
        (\<exists>a. p \<le> a \<and> a < length s \<and> s ! a = CHR ''{'' \<and> (\<forall>k. p \<le> k \<and> k < a \<longrightarrow> s ! k \<noteq> CHR ''{'') \<and>
           (\<forall>j. a \<le> j \<and> j < min (length s) (a + m) \<longrightarrow> \<not> closes s a j)))"
proof -
  define i where "i = find_brace s p"
  have fb: "p \<le> i" "\<forall>k. p \<le> k \<and> k < i \<longrightarrow> s ! k \<noteq> CHR ''{''" "i < length s \<longrightarrow> s ! i = CHR ''{''"
    using find_brace_props [of p s] by (simp_all add: i_def)
  show ?thesis
  proof (cases "i \<ge> length s")
    case True
    then have "find_json_span s p m = None" by (simp add: find_json_span_def i_def Let_def)
    moreover have "\<forall>k. p \<le> k \<and> k < length s \<longrightarrow> s ! k \<noteq> CHR ''{''" using fb(2) True by auto
    ultimately show ?thesis by simp
  next
    case False
    then have fj: "find_json_span s p m = scan_loop s (min (length s) (i + m)) i i 0 False False []"
      by (simp add: find_json_span_def i_def Let_def)
    have rel: "loop_rel Outside False False []" by (simp add: loop_rel_def)
    show ?thesis
    proof (cases "find_json_span s p m")
      case None
      from scan_loop_None [OF None [unfolded fj] _ le_refl nesting_self rel]
      have "\<forall>j. i \<le> j \<and> j < min (length s) (i + m) \<longrightarrow> \<not> closes s i j" by simp
      with fb False None show ?thesis by auto
    next
      case (Some r)
      obtain x e where r: "r = (x, e)" by (cases r)
      from scan_loop_Some [OF Some [unfolded fj r] _ le_refl nesting_self rel]
      have *: "x = i" "i < e" "e \<le> min (length s) (i + m)" "closes s i (e - 1)"
        "\<forall>k. i \<le> k \<and> k < e - 1 \<longrightarrow> \<not> closes s i k" by simp_all
      from *(4) have "s ! (e - 1) = CHR ''}''" by (simp add: closes_def)
      with * fb False Some r show ?thesis by auto
    qed
  qed
qed

theorem find_json_span_scan_witness:
  "find_json_span ''ab {'}': 1} x'' 0 200000 = Some (3, 11) \<and>
   ''ab {'}': 1} x'' ! 1 \<noteq> CHR ''{'' \<and> closes ''ab {'}': 1} x'' 3 10 \<and>
   \<not> closes ''ab {'}': 1} x'' 3 5"
proof -
  have e: "find_json_span ''ab {'}': 1} x'' 0 200000 = Some (3, 11)"
    by code_simp
  from find_json_span_scan [where s = "''ab {'}': 1} x''" and p = 0 and m = 200000] show ?thesis
    unfolding e by simp
qed




end
